theory Spec2Isabelle
  imports Main "HOL-Library.Sublist"
begin

section \<open>JavaScript values, results and the state of a run\<close>

text \<open>
  The repository holds two variants of one command-line script: \<^verbatim>\<open>Roku.js\<close> (a shared
  browser, a pipe mode, a pool that catches the rejection of a pipeline) and an earlier
  variant (the second source file, called \<^verbatim>\<open>part_000\<close> here: one browser per render,
  no catch in the pool). The functions \<^verbatim>\<open>fetchHTTP\<close>, \<^verbatim>\<open>extractBuckets\<close>, \<^verbatim>\<open>putTest\<close> and
  \<^verbatim>\<open>randHex\<close> are the same text in both files and are modelled once; where the variants
  differ, the definitions of the earlier variant carry the suffix \<open>_part000\<close>.

  A value that the script reads from a library (the body of a response, a command-line
  argument) is a \<open>jsval\<close>. Numbers are the integers; \<open>JObject\<close> stands for an object
  that is not a string (axios hands over the parsed value when the body of a response
  parses as JSON). Strings are lists of \<open>char\<close>; the pattern of the script only names
  ASCII characters.
\<close>

datatype jsval = JUndefined | JNull | JBool bool | JNum int | JStr string | JObject

definition truthy :: "jsval \<Rightarrow> bool" where
  "truthy v =
     (case v of
        JUndefined \<Rightarrow> False
      | JNull \<Rightarrow> False
      | JBool b \<Rightarrow> b
      | JNum n \<Rightarrow> n \<noteq> 0
      | JStr s \<Rightarrow> s \<noteq> []
      | JObject \<Rightarrow> True)"

definition js_or :: "jsval \<Rightarrow> jsval \<Rightarrow> jsval" where
  "js_or a b = (if truthy a then a else b)"

text \<open>
  An awaited call returns, throws, or never settles. \<open>Hang\<close> is the last case: the only
  loop of the script that can run forever is the polling loop of \<^verbatim>\<open>getBrowser\<close>.
\<close>

datatype error = TransportError | TypeError | PlaywrightError

datatype 'a result = Ok 'a | Throw error | Hang

record response =
  status :: int
  data :: jsval

record put_result =
  success :: bool
  log :: string

record probe_record =
  target :: string
  bucket :: string
  put :: string
  putBool :: bool

type_synonym handle = nat

text \<open>
  The trace of a run: the calls into axios and playwright, in the order they were made,
  and the entries into \<^verbatim>\<open>fetchRendered\<close>. Console output is not part of the model.
\<close>

datatype event =
    AxiosGet string
  | AxiosPut string string
  | Call_fetchRendered string
  | Launch
  | NewContext
  | NewPage
  | Goto string
  | Content
  | ContextClose
  | BrowserClose

text \<open>
  The module-level variables of the script (\<^verbatim>\<open>browser\<close> and \<^verbatim>\<open>browserLaunching\<close> exist in
  \<^verbatim>\<open>Roku.js\<close> only, \<^verbatim>\<open>urlResults\<close> in the earlier variant only) and the trace. A JavaScript
  \<^verbatim>\<open>Set\<close> is a list without repetition in insertion order.
\<close>

record world =
  browser :: "handle option"
  browserLaunching :: bool
  allBuckets :: "string list"
  records :: "probe_record list"
  urlResults :: "string \<rightharpoonup> probe_record list"
  events :: "event list"

definition init_world :: world where
  "init_world =
     \<lparr>browser = None, browserLaunching = False, allBuckets = [], records = [],
      urlResults = Map.empty, events = []\<rparr>"

text \<open>
  What the libraries answer. Every answer may depend on the moment of the call (the number
  of calls made before it), so that two calls with the same arguments can differ.
  \<open>page_goto\<close> gives the URLs of the requests the page made during the navigation and
  whether the navigation resolved.
\<close>

record env =
  axios_get :: "nat \<Rightarrow> string \<Rightarrow> error + response"
  axios_put :: "nat \<Rightarrow> string \<Rightarrow> string \<Rightarrow> error + response"
  randomBytes :: "nat \<Rightarrow> nat \<Rightarrow> string"
  chromium_launch :: "nat \<Rightarrow> error + handle"
  browser_newContext :: "nat \<Rightarrow> error + unit"
  browser_newPage :: "nat \<Rightarrow> error + unit"
  context_newPage :: "nat \<Rightarrow> error + unit"
  page_goto :: "nat \<Rightarrow> string \<Rightarrow> string list \<times> (error + unit)"
  page_content :: "nat \<Rightarrow> error + string"
  context_close :: "nat \<Rightarrow> error + unit"
  browser_close :: "nat \<Rightarrow> error + unit"

definition clock :: "world \<Rightarrow> nat" where
  "clock w = length (events w)"

definition emit :: "event \<Rightarrow> world \<Rightarrow> world" where
  "emit e w = w\<lparr>events := events w @ [e]\<rparr>"

definition ret :: "'a \<Rightarrow> world \<Rightarrow> 'a result \<times> world" where
  "ret x w = (Ok x, w)"

definition lift :: "'a result \<Rightarrow> world \<Rightarrow> 'a result \<times> world" where
  "lift r w = (r, w)"

definition bind ::
  "(world \<Rightarrow> 'a result \<times> world) \<Rightarrow> ('a \<Rightarrow> world \<Rightarrow> 'b result \<times> world) \<Rightarrow>
   world \<Rightarrow> 'b result \<times> world" where
  "bind m f w =
     (case m w of
        (Ok x, w') \<Rightarrow> f x w'
      | (Throw e, w') \<Rightarrow> (Throw e, w')
      | (Hang, w') \<Rightarrow> (Hang, w'))"

section \<open>The command line\<close>

text \<open>
  \<^verbatim>\<open>const LEVEL = parseInt(argv.L || 2, 10)\<close>. The argument parser gives a number for an
  argument that looks like one, a string otherwise, \<^verbatim>\<open>true\<close> for \<^verbatim>\<open>-L\<close> without a value and
  \<^verbatim>\<open>undefined\<close> when the option is absent. \<open>parseInt\<close> is \<open>None\<close> for \<^verbatim>\<open>NaN\<close>; of a
  string it reads, after white space (the ASCII white space here) and a sign, the decimal
  digits up to the first character that is none.
\<close>

record argv =
  argv_L :: jsval
  argv_X :: jsval
  argv_pipe :: bool

definition is_space :: "char \<Rightarrow> bool" where
  "is_space c = ((of_char c :: nat) \<in> {32, 9, 10, 11, 12, 13})"

definition is_digit :: "char \<Rightarrow> bool" where
  "is_digit c = (48 \<le> (of_char c :: nat) \<and> (of_char c :: nat) \<le> 57)"

definition digits_value :: "string \<Rightarrow> int" where
  "digits_value ds = foldl (\<lambda>a c. 10 * a + (int (of_char c) - 48)) 0 ds"

definition parseInt_string :: "string \<Rightarrow> int option" where
  "parseInt_string s =
     (let t = dropWhile is_space s;
          neg = (t \<noteq> [] \<and> hd t = CHR ''-'');
          u = (if t \<noteq> [] \<and> (hd t = CHR ''-'' \<or> hd t = CHR ''+'') then tl t else t);
          ds = takeWhile is_digit u
      in if ds = [] then None
         else Some (if neg then - digits_value ds else digits_value ds))"

fun parseInt :: "jsval \<Rightarrow> int option" where
  "parseInt (JNum n) = Some n"
| "parseInt (JStr s) = parseInt_string s"
| "parseInt (JBool b) = None"
| "parseInt JUndefined = None"
| "parseInt JNull = None"
| "parseInt JObject = None"

definition LEVEL :: "argv \<Rightarrow> int option" where
  "LEVEL a = parseInt (js_or (argv_L a) (JNum 2))"

definition PIPE_MODE :: "argv \<Rightarrow> bool" where
  "PIPE_MODE a = argv_pipe a"

section \<open>The pattern and the extractor\<close>

text \<open>
  \<^verbatim>\<open>/https?:\/\/[a-zA-Z0-9.-]+\.oss-[a-z0-9-]+\.aliyuncs\.com/g\<close>, as a backtracking matcher
  in continuation style: every piece of the pattern gets the rest of the pattern as the
  continuation \<open>k\<close>, and the result is what is left of the input after the match.
  A greedy \<^verbatim>\<open>+\<close> takes the longest run of characters of its class and gives characters
  back one by one (\<open>backtrack\<close>) until the rest of the pattern matches.
\<close>

definition host_char :: "char \<Rightarrow> bool" where
  "host_char c =
     (let n = (of_char c :: nat) in
      (97 \<le> n \<and> n \<le> 122) \<or> (65 \<le> n \<and> n \<le> 90) \<or> (48 \<le> n \<and> n \<le> 57) \<or>
      n = 46 \<or> n = 45)"

definition region_char :: "char \<Rightarrow> bool" where
  "region_char c =
     (let n = (of_char c :: nat) in
      (97 \<le> n \<and> n \<le> 122) \<or> (48 \<le> n \<and> n \<le> 57) \<or> n = 45)"

definition lit :: "string \<Rightarrow> (string \<Rightarrow> string option) \<Rightarrow> string \<Rightarrow> string option" where
  "lit p k s = (if take (length p) s = p then k (drop (length p) s) else None)"

definition opt_chr :: "char \<Rightarrow> (string \<Rightarrow> string option) \<Rightarrow> string \<Rightarrow> string option" where
  "opt_chr c k s =
     (case (case s of [] \<Rightarrow> None | x # xs \<Rightarrow> if x = c then k xs else None) of
        Some r \<Rightarrow> Some r
      | None \<Rightarrow> k s)"

fun backtrack :: "(string \<Rightarrow> string option) \<Rightarrow> string \<Rightarrow> nat \<Rightarrow> string option" where
  "backtrack k s 0 = None"
| "backtrack k s (Suc n) =
     (case k (drop (Suc n) s) of Some r \<Rightarrow> Some r | None \<Rightarrow> backtrack k s n)"

definition plus_cls ::
  "(char \<Rightarrow> bool) \<Rightarrow> (string \<Rightarrow> string option) \<Rightarrow> string \<Rightarrow> string option" where
  "plus_cls P k s = backtrack k s (length (takeWhile P s))"

definition OSS_REGEX :: "string \<Rightarrow> string option" where
  "OSS_REGEX =
     lit ''http'' (opt_chr CHR ''s'' (lit ''://'' (plus_cls host_char
       (lit ''.oss-'' (plus_cls region_char (lit ''.aliyuncs.com'' Some))))))"

text \<open>The text matched at the head of \<open>s\<close>, if the pattern matches there.\<close>

definition exec_at :: "string \<Rightarrow> string option" where
  "exec_at s = map_option (\<lambda>rest. take (length s - length rest) s) (OSS_REGEX s)"

text \<open>
  The loop of a global match: the pattern is tried at every index from \<^verbatim>\<open>lastIndex\<close> on,
  and after a match \<^verbatim>\<open>lastIndex\<close> is its end. \<open>i\<close> is the index of the head of the
  remaining input, \<open>skip\<close> the number of characters still covered by the last match.
\<close>

fun exec_loop :: "nat \<Rightarrow> nat \<Rightarrow> string \<Rightarrow> (nat \<times> string) list" where
  "exec_loop i skip [] = []"
| "exec_loop i (Suc n) (c # cs) = exec_loop (Suc i) n cs"
| "exec_loop i 0 (c # cs) =
     (case exec_at (c # cs) of
        Some m \<Rightarrow> (i, m) # exec_loop (Suc i) (length m - 1) cs
      | None \<Rightarrow> exec_loop (Suc i) 0 cs)"

text \<open>\<^verbatim>\<open>text.match(OSS_REGEX)\<close>: the matched texts, or \<^verbatim>\<open>null\<close> when there is none.\<close>

definition str_match :: "string \<Rightarrow> string list option" where
  "str_match s = (case map snd (exec_loop 0 0 s) of [] \<Rightarrow> None | m # ms \<Rightarrow> Some (m # ms))"

definition Set_add :: "'a \<Rightarrow> 'a list \<Rightarrow> 'a list" where
  "Set_add x s = (if x \<in> set s then s else s @ [x])"

definition add_all :: "'a list \<Rightarrow> 'a list \<Rightarrow> 'a list" where
  "add_all xs s = foldl (\<lambda>acc x. Set_add x acc) s xs"

definition new_Set :: "'a list \<Rightarrow> 'a list" where
  "new_Set xs = add_all xs []"

text \<open>
  \<^verbatim>\<open>[...new Set(text.match(OSS_REGEX) || [])]\<close>. A value without a \<^verbatim>\<open>match\<close> method makes
  the call throw a \<^verbatim>\<open>TypeError\<close>.
\<close>

definition extractBuckets :: "jsval \<Rightarrow> string list result" where
  "extractBuckets text =
     (case text of
        JStr s \<Rightarrow> Ok (new_Set (case str_match s of None \<Rightarrow> [] | Some ms \<Rightarrow> ms))
      | _ \<Rightarrow> Throw TypeError)"

text \<open>
  The pattern in the words of the specification: a scheme \<^verbatim>\<open>http\<close> or \<^verbatim>\<open>https\<close>, \<^verbatim>\<open>://\<close>,
  host characters, \<^verbatim>\<open>.oss-\<close>, region characters, \<^verbatim>\<open>.aliyuncs.com\<close>.
\<close>

definition bucket_pattern :: "string \<Rightarrow> bool" where
  "bucket_pattern u =
     (\<exists>scheme h r.
        u = scheme @ ''://'' @ h @ ''.oss-'' @ r @ ''.aliyuncs.com'' \<and>
        (scheme = ''http'' \<or> scheme = ''https'') \<and>
        h \<noteq> [] \<and> list_all host_char h \<and> r \<noteq> [] \<and> list_all region_char r)"

section \<open>The fetcher and the write probe\<close>

text \<open>
  \<^verbatim>\<open>fetchHTTP\<close>: \<^verbatim>\<open>validateStatus: () => true\<close> makes axios resolve for every status, so
  the \<^verbatim>\<open>catch\<close> is reached by a failure of the transport only, and the function returns
  \<^verbatim>\<open>res.data || ''\<close>.
\<close>

definition fetchHTTP :: "env \<Rightarrow> string \<Rightarrow> world \<Rightarrow> jsval result \<times> world" where
  "fetchHTTP env url w =
     (case axios_get env (clock w) url of
        Inr res \<Rightarrow> (Ok (js_or (data res) (JStr [])), emit (AxiosGet url) w)
      | Inl e \<Rightarrow> (Ok (JStr []), emit (AxiosGet url) w))"

definition randHex :: "env \<Rightarrow> nat \<Rightarrow> nat \<Rightarrow> string" where
  "randHex env t n = randomBytes env t (n div 2)"

definition COLOR_RED :: string where
  "COLOR_RED = char_of (27 :: nat) # ''[31m''"

definition COLOR_RESET :: string where
  "COLOR_RESET = char_of (27 :: nat) # ''[0m''"

text \<open>\<^verbatim>\<open>bucket.replace(/\/$/, '')\<close>\<close>

definition strip_slash :: "string \<Rightarrow> string" where
  "strip_slash s = (if s \<noteq> [] \<and> last s = CHR ''/'' then butlast s else s)"

definition putTest :: "env \<Rightarrow> string \<Rightarrow> world \<Rightarrow> put_result result \<times> world" where
  "putTest env bkt w =
     (let name = randHex env (clock w) 16 @ ''.ppa'';
          url = strip_slash bkt @ ''/'' @ name;
          payload = randHex env (clock w) 32;
          w1 = emit (AxiosPut url payload) w;
          fail = \<lparr>success = False, log = ''        [PUT FAIL] '' @ bkt\<rparr>
      in case axios_put env (clock w) url payload of
           Inr res \<Rightarrow>
             if 200 \<le> status res \<and> status res < 300
             then (Ok \<lparr>success = True,
                       log = ''        '' @ COLOR_RED @ ''[PUT OK]'' @ COLOR_RESET @ '' '' @ url\<rparr>, w1)
             else (Ok fail, w1)
         | Inl e \<Rightarrow> (Ok fail, w1))"

section \<open>The renderer of \<^verbatim>\<open>Roku.js\<close>\<close>

text \<open>
  The polling loop of \<^verbatim>\<open>getBrowser\<close>, for a caller that runs alone: nothing changes the
  flag while it sleeps.
\<close>

partial_function (option) poll :: "world \<Rightarrow> world option" where
  "poll w = (if browserLaunching w then poll w else Some w)"

declare poll.simps [code]

text \<open>
  \<^verbatim>\<open>getBrowser\<close> run to its end without another caller in between. The \<^verbatim>\<open>try\<close> block
  (the \<^verbatim>\<open>require\<close> and \<^verbatim>\<open>chromium.launch\<close>) is one call that gives a browser or throws.
\<close>

definition getBrowser :: "env \<Rightarrow> world \<Rightarrow> handle option result \<times> world" where
  "getBrowser env w =
     (if browser w \<noteq> None then (Ok (browser w), w)
      else if browserLaunching w then
        (case poll w of None \<Rightarrow> (Hang, w) | Some w' \<Rightarrow> (Ok (browser w'), w'))
      else
        (let w1 = emit Launch (w\<lparr>browserLaunching := True\<rparr>);
             w2 = (case chromium_launch env (clock w) of
                     Inr h \<Rightarrow> w1\<lparr>browser := Some h\<rparr>
                   | Inl e \<Rightarrow> w1);
             w3 = w2\<lparr>browserLaunching := False\<rparr>
         in (Ok (browser w3), w3)))"

text \<open>
  The same function under interleaving: a caller runs without interruption from one
  \<^verbatim>\<open>await\<close> to the next, so a call is the entry (which returns, starts to wait, or starts
  the launch), then polls (for a waiting caller) or the settling of the launch (for the
  caller that launched). Callers are numbered; \<open>pc i\<close> is where caller \<open>i\<close> stands.
  A \<^verbatim>\<open>require\<close> that throws is a launch that is rejected right after the entry.
\<close>

datatype gb_pc = NotCalled | Waiting | Launching | Returned "handle option"

inductive gb_step ::
  "world \<times> (nat \<Rightarrow> gb_pc) \<Rightarrow> world \<times> (nat \<Rightarrow> gb_pc) \<Rightarrow> bool" where
  enter_have:
    "pc i = NotCalled \<Longrightarrow> browser w \<noteq> None \<Longrightarrow>
     gb_step (w, pc) (w, pc(i := Returned (browser w)))"
| enter_wait:
    "pc i = NotCalled \<Longrightarrow> browser w = None \<Longrightarrow> browserLaunching w \<Longrightarrow>
     gb_step (w, pc) (w, pc(i := Waiting))"
| enter_launch:
    "pc i = NotCalled \<Longrightarrow> browser w = None \<Longrightarrow> \<not> browserLaunching w \<Longrightarrow>
     gb_step (w, pc) (emit Launch (w\<lparr>browserLaunching := True\<rparr>), pc(i := Launching))"
| poll_again:
    "pc i = Waiting \<Longrightarrow> browserLaunching w \<Longrightarrow>
     gb_step (w, pc) (w, pc)"
| poll_return:
    "pc i = Waiting \<Longrightarrow> \<not> browserLaunching w \<Longrightarrow>
     gb_step (w, pc) (w, pc(i := Returned (browser w)))"
| launch_resolved:
    "pc i = Launching \<Longrightarrow>
     gb_step (w, pc) (w\<lparr>browser := Some h, browserLaunching := False\<rparr>,
                      pc(i := Returned (Some h)))"
| launch_rejected:
    "pc i = Launching \<Longrightarrow>
     gb_step (w, pc) (w\<lparr>browserLaunching := False\<rparr>, pc(i := Returned (browser w)))"



text \<open>
  The handler of the page's requests: \<^verbatim>\<open>r.url().match(OSS_REGEX)\<close>, every match added to
  \<^verbatim>\<open>found\<close>.
\<close>

definition observe :: "string list \<Rightarrow> string list \<Rightarrow> string list" where
  "observe found urls =
     foldl (\<lambda>f u. case str_match u of None \<Rightarrow> f | Some ms \<Rightarrow> add_all ms f) found urls"

text \<open>
  The \<^verbatim>\<open>try\<close> block of \<^verbatim>\<open>fetchRendered\<close> from \<^verbatim>\<open>bw.newContext()\<close> on, with its \<^verbatim>\<open>catch\<close>:
  whatever throws, the function returns what \<^verbatim>\<open>found\<close> holds at that moment.
\<close>

definition render_page :: "env \<Rightarrow> string \<Rightarrow> world \<Rightarrow> string list result \<times> world" where
  "render_page env url w1 =
     (let w2 = emit NewContext w1 in
      case browser_newContext env (clock w1) of
        Inl e \<Rightarrow> (Ok [], w2)
      | Inr _ \<Rightarrow>
         (let w3 = emit NewPage w2 in
          case context_newPage env (clock w2) of
            Inl e \<Rightarrow> (Ok [], w3)
          | Inr _ \<Rightarrow>
             (let w4 = emit (Goto url) w3;
                  found1 = observe [] (fst (page_goto env (clock w3) url))
              in case snd (page_goto env (clock w3) url) of
                   Inl e \<Rightarrow> (Ok found1, w4)
                 | Inr _ \<Rightarrow>
                    (let w5 = emit Content w4 in
                     case page_content env (clock w4) of
                       Inl e \<Rightarrow> (Ok found1, w5)
                     | Inr html \<Rightarrow>
                        (case extractBuckets (JStr html) of
                           Ok bs \<Rightarrow>
                             (let found2 = add_all bs found1;
                                  w6 = emit ContextClose w5
                              in case context_close env (clock w5) of
                                   Inl e \<Rightarrow> (Ok found2, w6)
                                 | Inr _ \<Rightarrow> (Ok found2, w6))
                         | _ \<Rightarrow> (Ok found1, w5))))))"

definition fetchRendered :: "env \<Rightarrow> string \<Rightarrow> world \<Rightarrow> string list result \<times> world" where
  "fetchRendered env url w =
     (case getBrowser env (emit (Call_fetchRendered url) w) of
        (Ok None, w1) \<Rightarrow> (Ok [], w1)
      | (Ok (Some bw), w1) \<Rightarrow> render_page env url w1
      | (Throw e, w1) \<Rightarrow> (Ok [], w1)
      | (Hang, w1) \<Rightarrow> (Hang, w1))"

definition closeBrowser :: "env \<Rightarrow> world \<Rightarrow> unit result \<times> world" where
  "closeBrowser env w =
     (case browser w of
        None \<Rightarrow> (Ok (), w)
      | Some bw \<Rightarrow>
         (case browser_close env (clock w) of
            Inl e \<Rightarrow> (Throw e, emit BrowserClose w)
          | Inr _ \<Rightarrow> (Ok (), (emit BrowserClose w)\<lparr>browser := None\<rparr>)))"

section \<open>The renderer of the earlier variant\<close>

text \<open>
  One browser per call; the launch and \<^verbatim>\<open>browser.newPage()\<close> stand before the \<^verbatim>\<open>try\<close>,
  \<^verbatim>\<open>browser.close()\<close> after it.
\<close>

definition fetchRendered_part000 ::
  "env \<Rightarrow> string \<Rightarrow> world \<Rightarrow> string list result \<times> world" where
  "fetchRendered_part000 env url w0 =
     (let w = emit (Call_fetchRendered url) w0;
          w1 = emit Launch w
      in case chromium_launch env (clock w) of
           Inl e \<Rightarrow> (Throw e, w1)
         | Inr bw \<Rightarrow>
            (let w2 = emit NewPage w1 in
             case browser_newPage env (clock w1) of
               Inl e \<Rightarrow> (Throw e, w2)
             | Inr _ \<Rightarrow>
                (let w3 = emit (Goto url) w2;
                     found1 = observe [] (fst (page_goto env (clock w2) url));
                     tried =
                       (case snd (page_goto env (clock w2) url) of
                          Inl e \<Rightarrow> (found1, w3)
                        | Inr _ \<Rightarrow>
                           (case page_content env (clock w3) of
                              Inl e \<Rightarrow> (found1, emit Content w3)
                            | Inr html \<Rightarrow>
                               (case extractBuckets (JStr html) of
                                  Ok bs \<Rightarrow> (add_all bs found1, emit Content w3)
                                | _ \<Rightarrow> (found1, emit Content w3))));
                     w5 = emit BrowserClose (snd tried)
                 in case browser_close env (clock (snd tried)) of
                      Inl e \<Rightarrow> (Throw e, w5)
                    | Inr _ \<Rightarrow> (Ok (fst tried), w5))))"

section \<open>The pipeline of one target\<close>

text \<open>\<^verbatim>\<open>extractBuckets(await fetchHTTP(target))\<close>\<close>

definition fetch_extract :: "env \<Rightarrow> string \<Rightarrow> world \<Rightarrow> string list result \<times> world" where
  "fetch_extract env tgt = bind (fetchHTTP env tgt) (\<lambda>text. lift (extractBuckets text))"

text \<open>
  The three \<^verbatim>\<open>if (LEVEL === n)\<close> blocks of the worker, one after the other; the result is
  the value of \<^verbatim>\<open>buckets\<close> when the loop over the buckets starts.
\<close>

definition discover :: "env \<Rightarrow> argv \<Rightarrow> string \<Rightarrow> world \<Rightarrow> string list result \<times> world" where
  "discover env a tgt =
     bind (if LEVEL a = Some 1 then fetch_extract env tgt else ret [])
       (\<lambda>b1. bind (if LEVEL a = Some 2
                    then bind (fetch_extract env tgt)
                           (\<lambda>bs. if bs = [] \<and> \<not> PIPE_MODE a then fetchRendered env tgt
                                 else if bs = [] then fetchRendered env tgt
                                 else ret bs)
                    else ret b1)
       (\<lambda>b2. if LEVEL a = Some 3 then fetchRendered env tgt else ret b2))"

definition discover_part000 ::
  "env \<Rightarrow> argv \<Rightarrow> string \<Rightarrow> world \<Rightarrow> string list result \<times> world" where
  "discover_part000 env a tgt =
     bind (if LEVEL a = Some 1 then fetch_extract env tgt else ret [])
       (\<lambda>b1. bind (if LEVEL a = Some 2
                    then bind (fetch_extract env tgt)
                           (\<lambda>bs. if bs = [] then fetchRendered_part000 env tgt else ret bs)
                    else ret b1)
       (\<lambda>b2. if LEVEL a = Some 3 then fetchRendered_part000 env tgt else ret b2))"

text \<open>The loop \<^verbatim>\<open>for (const b of buckets)\<close> of \<^verbatim>\<open>Roku.js\<close>.\<close>

fun probe_buckets ::
  "env \<Rightarrow> argv \<Rightarrow> string \<Rightarrow> string list \<Rightarrow> world \<Rightarrow> unit result \<times> world" where
  "probe_buckets env a tgt [] w = (Ok (), w)"
| "probe_buckets env a tgt (b # bs) w =
     (let w1 = w\<lparr>allBuckets := Set_add b (allBuckets w)\<rparr> in
      if argv_X a = JStr ''PUT'' \<and> \<not> PIPE_MODE a
      then (case putTest env b w1 of
              (Ok r, w2) \<Rightarrow>
                probe_buckets env a tgt bs
                  (w2\<lparr>records := records w2 @
                     [\<lparr>target = tgt, bucket = b,
                       put = (if success r then ''PUT_OK'' else []),
                       putBool = success r\<rparr>]\<rparr>)
            | (Throw e, w2) \<Rightarrow> (Throw e, w2)
            | (Hang, w2) \<Rightarrow> (Hang, w2))
      else probe_buckets env a tgt bs
             (w1\<lparr>records := records w1 @
                [\<lparr>target = tgt, bucket = b, put = [], putBool = False\<rparr>]\<rparr>))"

definition worker :: "env \<Rightarrow> argv \<Rightarrow> string \<Rightarrow> world \<Rightarrow> unit result \<times> world" where
  "worker env a tgt = bind (discover env a tgt) (\<lambda>buckets. probe_buckets env a tgt buckets)"

text \<open>
  The loop of the earlier variant collects the records of the target in \<^verbatim>\<open>localRecords\<close>,
  and the worker stores them in \<^verbatim>\<open>urlResults\<close>.
\<close>

fun probe_buckets_part000 ::
  "env \<Rightarrow> argv \<Rightarrow> string \<Rightarrow> string list \<Rightarrow> probe_record list \<Rightarrow> world \<Rightarrow>
   probe_record list result \<times> world" where
  "probe_buckets_part000 env a tgt [] localRecords w = (Ok localRecords, w)"
| "probe_buckets_part000 env a tgt (b # bs) localRecords w =
     (let w1 = w\<lparr>allBuckets := Set_add b (allBuckets w)\<rparr> in
      if argv_X a = JStr ''PUT''
      then (case putTest env b w1 of
              (Ok r, w2) \<Rightarrow>
                probe_buckets_part000 env a tgt bs
                  (localRecords @
                     [\<lparr>target = tgt, bucket = b,
                       put = (if success r then ''PUT_OK'' else []),
                       putBool = success r\<rparr>]) w2
            | (Throw e, w2) \<Rightarrow> (Throw e, w2)
            | (Hang, w2) \<Rightarrow> (Hang, w2))
      else probe_buckets_part000 env a tgt bs
             (localRecords @ [\<lparr>target = tgt, bucket = b, put = [], putBool = False\<rparr>]) w1)"

definition worker_part000 :: "env \<Rightarrow> argv \<Rightarrow> string \<Rightarrow> world \<Rightarrow> unit result \<times> world" where
  "worker_part000 env a tgt =
     bind (discover_part000 env a tgt)
       (\<lambda>buckets. bind (probe_buckets_part000 env a tgt buckets [])
          (\<lambda>localRecords w. (Ok (), w\<lparr>urlResults := (urlResults w)(tgt \<mapsto> localRecords)\<rparr>)))"

section \<open>The pools and the main functions\<close>

text \<open>
  The pools are modelled at the grain of whole pipelines, in the order of the list of
  targets. \<^verbatim>\<open>runWithRealtimeOutput\<close> attaches a \<^verbatim>\<open>catch\<close> to the promise of every worker: a
  pipeline that throws is logged and the pool goes on. \<^verbatim>\<open>runPool\<close> awaits the worker with
  no handler: a pipeline that throws rejects the promise of the pool.
\<close>

fun runWithRealtimeOutput ::
  "string list \<Rightarrow> (string \<Rightarrow> world \<Rightarrow> unit result \<times> world) \<Rightarrow> world \<Rightarrow>
   unit result \<times> world" where
  "runWithRealtimeOutput [] wk w = (Ok (), w)"
| "runWithRealtimeOutput (url # urls) wk w =
     (case wk url w of
        (Ok u, w') \<Rightarrow> runWithRealtimeOutput urls wk w'
      | (Throw e, w') \<Rightarrow> runWithRealtimeOutput urls wk w'
      | (Hang, w') \<Rightarrow> (Hang, w'))"

fun runPool ::
  "string list \<Rightarrow> (string \<Rightarrow> world \<Rightarrow> unit result \<times> world) \<Rightarrow> world \<Rightarrow>
   unit result \<times> world" where
  "runPool [] wk w = (Ok (), w)"
| "runPool (cur # items) wk w =
     (case wk cur w of
        (Ok u, w') \<Rightarrow> runPool items wk w'
      | (Throw e, w') \<Rightarrow> (Throw e, w')
      | (Hang, w') \<Rightarrow> (Hang, w'))"

text \<open>
  The main function gives the exit code of the process: 1 when there is no target, 0 at
  the end of a run. The writing of the output files is not modelled. A result \<open>Throw\<close> is
  a rejection that nothing handles.
\<close>

definition main :: "env \<Rightarrow> argv \<Rightarrow> string list \<Rightarrow> world \<Rightarrow> int result \<times> world" where
  "main env a urls =
     (if urls = [] then ret 1
      else bind (runWithRealtimeOutput urls (worker env a))
             (\<lambda>u. bind (closeBrowser env)
                (\<lambda>u. if PIPE_MODE a then ret 0 else ret 0)))"

text \<open>
  After the pool, the earlier variant moves the records of every target of the list from
  \<^verbatim>\<open>urlResults\<close> to \<^verbatim>\<open>records\<close>.
\<close>

fun merge_results :: "string list \<Rightarrow> world \<Rightarrow> world" where
  "merge_results [] w = w"
| "merge_results (t # ts) w =
     merge_results ts
       (case urlResults w t of
          None \<Rightarrow> w
        | Some rs \<Rightarrow> w\<lparr>records := records w @ rs\<rparr>)"

definition main_part000 :: "env \<Rightarrow> argv \<Rightarrow> string list \<Rightarrow> world \<Rightarrow> int result \<times> world" where
  "main_part000 env a urls =
     (if urls = [] then ret 1
      else bind (runPool urls (worker_part000 env a))
             (\<lambda>u w. (Ok 0, merge_results urls w)))"

section \<open>Reading the trace\<close>

text \<open>The targets for which the fetcher and the renderer were invoked, in order.\<close>

fun fetch_calls :: "event list \<Rightarrow> string list" where
  "fetch_calls [] = []"
| "fetch_calls (AxiosGet u # es) = u # fetch_calls es"
| "fetch_calls (e # es) = fetch_calls es"

fun render_calls :: "event list \<Rightarrow> string list" where
  "render_calls [] = []"
| "render_calls (Call_fetchRendered u # es) = u # render_calls es"
| "render_calls (e # es) = render_calls es"

section \<open>What a run discovers\<close>




section \<open>The writes of interleaved pipelines\<close>

text \<open>
  Two pipelines that run at the same time take turns at every \<^verbatim>\<open>await\<close>. What they share
  are the bucket set and the record list; a pipeline writes to them in its loop over the
  buckets: \<^verbatim>\<open>allBuckets.add(b)\<close>, then (after the write probe, when there is one)
  \<^verbatim>\<open>records.push(...)\<close>. \<open>commits\<close> are the writes of one pipeline for its buckets and the
  records it makes for them; an interleaving of lists takes, at every step, the head of one
  of them.
\<close>

datatype commit_op = AddBucket string | PushRecord probe_record

fun commit :: "commit_op \<Rightarrow> world \<Rightarrow> world" where
  "commit (AddBucket b) w = w\<lparr>allBuckets := Set_add b (allBuckets w)\<rparr>"
| "commit (PushRecord r) w = w\<lparr>records := records w @ [r]\<rparr>"

fun commits :: "(string \<times> probe_record) list \<Rightarrow> commit_op list" where
  "commits [] = []"
| "commits ((b, r) # brs) = AddBucket b # PushRecord r # commits brs"

inductive interleaving :: "'a list list \<Rightarrow> 'a list \<Rightarrow> bool" where
  interleaving_done: "\<forall>xs \<in> set xss. xs = [] \<Longrightarrow> interleaving xss []"
| interleaving_step:
    "i < length xss \<Longrightarrow> xss ! i = x # xs \<Longrightarrow> interleaving (xss[i := xs]) ys \<Longrightarrow>
     interleaving xss (x # ys)"

section \<open>An environment to run the model on\<close>

text \<open>
  One page names a bucket twice, one answers with a body that parses as JSON, every other
  page is a 404 page without a bucket; every write is answered 201; the browser starts,
  and every rendered page requests a script from a bucket.
\<close>

definition demo_env :: env where
  "demo_env =
     \<lparr>axios_get = (\<lambda>t u.
        if u = ''http://a.example''
        then Inr \<lparr>status = 200,
                  data = JStr ''src=http://a.oss-cn-hangzhou.aliyuncs.com/x http://a.oss-cn-hangzhou.aliyuncs.com/y''\<rparr>
        else if u = ''http://api.example'' then Inr \<lparr>status = 200, data = JObject\<rparr>
        else Inr \<lparr>status = 404, data = JStr ''not found''\<rparr>),
      axios_put = (\<lambda>t u body. Inr \<lparr>status = 201, data = JStr []\<rparr>),
      randomBytes = (\<lambda>t n. ''c0ffee''),
      chromium_launch = (\<lambda>t. Inr 1),
      browser_newContext = (\<lambda>t. Inr ()),
      browser_newPage = (\<lambda>t. Inr ()),
      context_newPage = (\<lambda>t. Inr ()),
      page_goto = (\<lambda>t u. ([''http://b.oss-cn-beijing.aliyuncs.com/app.js''], Inr ())),
      page_content = (\<lambda>t. Inr ''<html></html>''),
      context_close = (\<lambda>t. Inr ()),
      browser_close = (\<lambda>t. Inr ())\<rparr>"

definition demo_argv :: "int \<Rightarrow> argv" where
  "demo_argv n = \<lparr>argv_L = JNum n, argv_X = JStr ''PUT'', argv_pipe = False\<rparr>"

section \<open>Lemmas: the pattern\<close>

lemma lit_Some:
  "lit p k s = Some r \<Longrightarrow> \<exists>s'. s = p @ s' \<and> k s' = Some r"
  by (metis append_take_drop_id lit_def option.distinct(1))

lemma lit_append [simp]: "lit p k (p @ s) = k s"
  by (simp add: lit_def)

lemma opt_chr_Some:
  "opt_chr c k s = Some r \<Longrightarrow> (\<exists>s'. s = c # s' \<and> k s' = Some r) \<or> k s = Some r"
  by (auto simp: opt_chr_def split: list.splits if_splits option.splits)



lemma backtrack_Some:
  "backtrack k s n = Some r \<Longrightarrow> \<exists>m. 0 < m \<and> m \<le> n \<and> k (drop m s) = Some r"
proof (induction n)
  case 0
  then show ?case by simp
next
  case (Suc n)
  show ?case
  proof (cases "k (drop (Suc n) s)")
    case None
    with Suc.prems have "backtrack k s n = Some r" by simp
    from Suc.IH[OF this] show ?thesis by (meson le_Suc_eq)
  next
    case (Some a)
    with Suc.prems have "k (drop (Suc n) s) = Some r" by simp
    then show ?thesis by blast
  qed
qed


lemma plus_cls_Some:
  assumes "plus_cls P k s = Some r"
  shows "\<exists>x y. s = x @ y \<and> x \<noteq> [] \<and> list_all P x \<and> k y = Some r"
proof -
  from assms obtain m where m: "0 < m" "m \<le> length (takeWhile P s)" "k (drop m s) = Some r"
    unfolding plus_cls_def using backtrack_Some by blast
  have "take m s = take m (takeWhile P s)"
    using m(2) by (metis append_eq_conv_conj takeWhile_dropWhile_id min.absorb2 length_take
        take_take)
  then have "set (take m s) \<subseteq> set (takeWhile P s)"
    by (metis set_take_subset)
  then have "list_all P (take m s)"
    by (auto simp: list_all_iff dest: set_takeWhileD)
  moreover have "take m s \<noteq> []"
    using m(1,2) by (metis length_0_conv less_le_trans not_less_zero take_eq_Nil takeWhile.simps(1))
  ultimately show ?thesis
    using m(3) by (metis append_take_drop_id)
qed


lemma OSS_REGEX_Some:
  assumes "OSS_REGEX s = Some rest"
  shows "\<exists>u. s = u @ rest \<and> bucket_pattern u"
proof -
  from assms obtain s1 where s1: "s = ''http'' @ s1"
    and k1: "opt_chr CHR ''s'' (lit ''://'' (plus_cls host_char
       (lit ''.oss-'' (plus_cls region_char (lit ''.aliyuncs.com'' Some))))) s1 = Some rest"
    unfolding OSS_REGEX_def using lit_Some by blast
  have "\<exists>scheme s2. s = scheme @ s2 \<and> (scheme = ''http'' \<or> scheme = ''https'') \<and>
      lit ''://'' (plus_cls host_char
       (lit ''.oss-'' (plus_cls region_char (lit ''.aliyuncs.com'' Some)))) s2 = Some rest"
    using opt_chr_Some[OF k1]
  proof
    assume "\<exists>s'. s1 = CHR ''s'' # s' \<and> lit ''://'' (plus_cls host_char
       (lit ''.oss-'' (plus_cls region_char (lit ''.aliyuncs.com'' Some)))) s' = Some rest"
    then obtain s' where "s1 = CHR ''s'' # s'" and k: "lit ''://'' (plus_cls host_char
       (lit ''.oss-'' (plus_cls region_char (lit ''.aliyuncs.com'' Some)))) s' = Some rest"
      by blast
    then have "s = ''https'' @ s'" using s1 by simp
    with k show ?thesis by blast
  next
    assume "lit ''://'' (plus_cls host_char
       (lit ''.oss-'' (plus_cls region_char (lit ''.aliyuncs.com'' Some)))) s1 = Some rest"
    with s1 show ?thesis by blast
  qed
  then obtain scheme s2 where s2: "s = scheme @ s2"
    and scheme: "scheme = ''http'' \<or> scheme = ''https''"
    and k2: "lit ''://'' (plus_cls host_char
       (lit ''.oss-'' (plus_cls region_char (lit ''.aliyuncs.com'' Some)))) s2 = Some rest"
    by blast
  from lit_Some[OF k2] obtain s3 where s3: "s2 = ''://'' @ s3"
    and k3: "plus_cls host_char
       (lit ''.oss-'' (plus_cls region_char (lit ''.aliyuncs.com'' Some))) s3 = Some rest"
    by blast
  from plus_cls_Some[OF k3] obtain h s4 where s4: "s3 = h @ s4" "h \<noteq> []" "list_all host_char h"
    and k4: "lit ''.oss-'' (plus_cls region_char (lit ''.aliyuncs.com'' Some)) s4 = Some rest"
    by blast
  from lit_Some[OF k4] obtain s5 where s5: "s4 = ''.oss-'' @ s5"
    and k5: "plus_cls region_char (lit ''.aliyuncs.com'' Some) s5 = Some rest"
    by blast
  from plus_cls_Some[OF k5] obtain r s6 where s6: "s5 = r @ s6" "r \<noteq> []" "list_all region_char r"
    and k6: "lit ''.aliyuncs.com'' Some s6 = Some rest"
    by blast
  from lit_Some[OF k6] have s7: "s6 = ''.aliyuncs.com'' @ rest"
    by blast
  let ?u = "scheme @ ''://'' @ h @ ''.oss-'' @ r @ ''.aliyuncs.com''"
  have "s = ?u @ rest"
    using s2 s3 s4(1) s5 s6(1) s7 by simp
  moreover have "bucket_pattern ?u"
    unfolding bucket_pattern_def using scheme s4(2,3) s6(2,3) by blast
  ultimately show ?thesis by blast
qed


lemma exec_at_Some:
  assumes "exec_at s = Some m"
  shows "bucket_pattern m \<and> (\<exists>rest. s = m @ rest)"
proof -
  from assms obtain rest where r: "OSS_REGEX s = Some rest" and m: "m = take (length s - length rest) s"
    unfolding exec_at_def by auto
  from OSS_REGEX_Some[OF r] obtain u where u: "s = u @ rest" "bucket_pattern u" by blast
  then have "m = u" using m by simp
  with u show ?thesis by blast
qed

lemma bucket_pattern_nonempty: "bucket_pattern u \<Longrightarrow> u \<noteq> []"
  unfolding bucket_pattern_def by auto




lemma exec_loop_from:
  "(p, m) \<in> set (exec_loop i skip s) \<Longrightarrow> i + skip \<le> p"
proof (induction i skip s rule: exec_loop.induct)
  case (1 i skip)
  then show ?case by simp
next
  case (2 i n c cs)
  then show ?case by simp
next
  case (3 i c cs)
  then show ?case by (cases "exec_at (c # cs)") (auto dest: le_SucI Suc_leD)
qed

lemma exec_loop_non_overlapping:
  "sorted_wrt (\<lambda>(p, m) (q, n). p + length m \<le> q) (exec_loop i skip s)"
proof (induction i skip s rule: exec_loop.induct)
  case (1 i skip)
  then show ?case by simp
next
  case (2 i n c cs)
  then show ?case by simp
next
  case (3 i c cs)
  show ?case
  proof (cases "exec_at (c # cs)")
    case None
    with 3 show ?thesis by simp
  next
    case (Some a)
    from exec_at_Some[OF Some] have "a \<noteq> []" using bucket_pattern_nonempty by blast
    then have "\<forall>(q, n) \<in> set (exec_loop (Suc i) (length a - 1) cs). i + length a \<le> q"
      using exec_loop_from[of _ _ "Suc i" "length a - 1" cs] by (cases a) auto
    with Some "3.IH"(2)[OF Some] show ?thesis by auto
  qed
qed

section \<open>Lemmas: sets as lists\<close>

lemma Set_add_distinct: "distinct s \<Longrightarrow> distinct (Set_add x s)"
  by (simp add: Set_add_def)

lemma set_Set_add: "set (Set_add x s) = insert x (set s)"
  by (auto simp: Set_add_def)

lemma add_all_distinct: "distinct s \<Longrightarrow> distinct (add_all xs s)"
  unfolding add_all_def by (induction xs arbitrary: s) (simp_all add: Set_add_distinct)


lemma add_all_Nil [simp]: "add_all [] s = s"
  by (simp add: add_all_def)

lemma add_all_Cons [simp]: "add_all (x # xs) s = add_all xs (Set_add x s)"
  by (simp add: add_all_def)




lemma new_Set_distinct: "distinct (new_Set xs)"
  unfolding new_Set_def by (simp add: add_all_distinct)



section \<open>Lemmas: the trace\<close>

lemma events_emit [simp]: "events (emit e w) = events w @ [e]"
  by (simp add: emit_def)

lemma emit_fields [simp]:
  "browser (emit e w) = browser w"
  "browserLaunching (emit e w) = browserLaunching w"
  "allBuckets (emit e w) = allBuckets w"
  "records (emit e w) = records w"
  "urlResults (emit e w) = urlResults w"
  by (simp_all add: emit_def)

lemma fetch_calls_append [simp]: "fetch_calls (xs @ ys) = fetch_calls xs @ fetch_calls ys"
  by (induction xs rule: fetch_calls.induct) simp_all

lemma render_calls_append [simp]: "render_calls (xs @ ys) = render_calls xs @ render_calls ys"
  by (induction xs rule: render_calls.induct) simp_all

lemma poll_Some:
  assumes "poll w = Some w'"
  shows "w' = w \<and> \<not> browserLaunching w"
  by (rule poll.raw_induct[OF _ assms]) (auto split: if_splits)

lemma poll_idle: "\<not> browserLaunching w \<Longrightarrow> poll w = Some w"
  by (subst poll.simps) simp

text \<open>
What each function adds to the calls of the fetcher and of the renderer.
\<close>

lemma fetchHTTP_calls:
  "fetch_calls (events (snd (fetchHTTP env url w))) = fetch_calls (events w) @ [url]"
  "render_calls (events (snd (fetchHTTP env url w))) = render_calls (events w)"
  by (simp_all add: fetchHTTP_def split: sum.splits)

lemma fetchHTTP_Ok: "\<exists>v. fst (fetchHTTP env url w) = Ok v"
  by (simp add: fetchHTTP_def split: sum.splits)

lemma putTest_calls:
  "fetch_calls (events (snd (putTest env b w))) = fetch_calls (events w)"
  "render_calls (events (snd (putTest env b w))) = render_calls (events w)"
  by (simp_all add: putTest_def Let_def split: sum.splits)

lemma getBrowser_calls:
  "fetch_calls (events (snd (getBrowser env w))) = fetch_calls (events w)"
  "render_calls (events (snd (getBrowser env w))) = render_calls (events w)"
  by (auto simp: getBrowser_def Let_def dest: poll_Some split: sum.splits option.splits)

lemma render_page_calls:
  "fetch_calls (events (snd (render_page env url w))) = fetch_calls (events w)"
  "render_calls (events (snd (render_page env url w))) = render_calls (events w)"
  by (simp_all add: render_page_def Let_def split: sum.splits result.splits)

lemma fetchRendered_calls:
  "fetch_calls (events (snd (fetchRendered env url w))) = fetch_calls (events w)"
  "render_calls (events (snd (fetchRendered env url w))) = render_calls (events w) @ [url]"
proof -
  let ?w = "emit (Call_fetchRendered url) w"
  have g: "fetch_calls (events (snd (getBrowser env ?w))) = fetch_calls (events w)"
    "render_calls (events (snd (getBrowser env ?w))) = render_calls (events w) @ [url]"
    by (simp_all add: getBrowser_calls)
  show "fetch_calls (events (snd (fetchRendered env url w))) = fetch_calls (events w)"
    using g(1) by (auto simp: fetchRendered_def render_page_calls split: prod.splits result.splits option.splits)
  show "render_calls (events (snd (fetchRendered env url w))) = render_calls (events w) @ [url]"
    using g(2) by (auto simp: fetchRendered_def render_page_calls split: prod.splits result.splits option.splits)
qed

lemma fetchRendered_part000_calls:
  "fetch_calls (events (snd (fetchRendered_part000 env url w))) = fetch_calls (events w)"
  "render_calls (events (snd (fetchRendered_part000 env url w))) = render_calls (events w) @ [url]"
  by (simp_all add: fetchRendered_part000_def Let_def split: sum.splits result.splits)

lemma probe_buckets_calls:
  "fetch_calls (events (snd (probe_buckets env a tgt bs w))) = fetch_calls (events w) \<and>
   render_calls (events (snd (probe_buckets env a tgt bs w))) = render_calls (events w)"
proof (induction bs arbitrary: w)
  case Nil
  then show ?case by simp
next
  case (Cons b bs)
  let ?w1 = "w\<lparr>allBuckets := Set_add b (allBuckets w)\<rparr>"
  have p: "fetch_calls (events (snd (putTest env b ?w1))) = fetch_calls (events w)"
    "render_calls (events (snd (putTest env b ?w1))) = render_calls (events w)"
    by (simp_all add: putTest_calls)
  show ?case
    using p Cons.IH by (auto simp: Let_def split: prod.splits result.splits)
qed

lemma probe_buckets_part000_calls:
  "fetch_calls (events (snd (probe_buckets_part000 env a tgt bs lr w))) = fetch_calls (events w) \<and>
   render_calls (events (snd (probe_buckets_part000 env a tgt bs lr w))) = render_calls (events w)"
proof (induction bs arbitrary: w lr)
  case Nil
  then show ?case by simp
next
  case (Cons b bs)
  let ?w1 = "w\<lparr>allBuckets := Set_add b (allBuckets w)\<rparr>"
  have p: "fetch_calls (events (snd (putTest env b ?w1))) = fetch_calls (events w)"
    "render_calls (events (snd (putTest env b ?w1))) = render_calls (events w)"
    by (simp_all add: putTest_calls)
  show ?case
    using p Cons.IH by (auto simp: Let_def split: prod.splits result.splits)
qed

lemma probe_buckets_part000_calls_elim:
  assumes "probe_buckets_part000 env a tgt bs lr w = (r, w')"
  shows "fetch_calls (events w') = fetch_calls (events w)"
    and "render_calls (events w') = render_calls (events w)"
  using probe_buckets_part000_calls[of env a tgt bs lr w] assms by simp_all

lemma fetch_extract_calls:
  "fetch_calls (events (snd (fetch_extract env tgt w))) = fetch_calls (events w) @ [tgt]"
  "render_calls (events (snd (fetch_extract env tgt w))) = render_calls (events w)"
  using fetchHTTP_calls[of env tgt w]
  by (auto simp: fetch_extract_def bind_def lift_def split: prod.splits result.splits)

section \<open>Lemmas: the levels\<close>

lemma discover_level1:
  assumes "LEVEL a = Some 1"
  shows "discover env a tgt w = fetch_extract env tgt w"
    and "discover_part000 env a tgt w = fetch_extract env tgt w"
  using assms
  by (auto simp: discover_def discover_part000_def bind_def ret_def split: prod.splits result.splits)

lemma discover_level3:
  assumes "LEVEL a = Some 3"
  shows "discover env a tgt w = fetchRendered env tgt w"
    and "discover_part000 env a tgt w = fetchRendered_part000 env tgt w"
  using assms
  by (auto simp: discover_def discover_part000_def bind_def ret_def split: prod.splits result.splits)

lemma discover_level2:
  assumes "LEVEL a = Some 2"
  shows "discover env a tgt w =
           bind (fetch_extract env tgt) (\<lambda>bs. if bs = [] then fetchRendered env tgt else ret bs) w"
    and "discover_part000 env a tgt w =
           bind (fetch_extract env tgt) (\<lambda>bs. if bs = [] then fetchRendered_part000 env tgt else ret bs) w"
  using assms
  by (auto simp: discover_def discover_part000_def bind_def ret_def split: prod.splits result.splits)

lemma discover_other:
  assumes "LEVEL a \<noteq> Some 1" "LEVEL a \<noteq> Some 2" "LEVEL a \<noteq> Some 3"
  shows "discover env a tgt w = (Ok [], w)"
    and "discover_part000 env a tgt w = (Ok [], w)"
  using assms
  by (auto simp: discover_def discover_part000_def bind_def ret_def split: prod.splits result.splits)

lemma worker_calls:
  "fetch_calls (events (snd (worker env a tgt w))) = fetch_calls (events (snd (discover env a tgt w)))"
  "render_calls (events (snd (worker env a tgt w))) = render_calls (events (snd (discover env a tgt w)))"
  using probe_buckets_calls
  by (auto simp: worker_def bind_def split: prod.splits result.splits)

lemma worker_part000_calls:
  "fetch_calls (events (snd (worker_part000 env a tgt w))) =
     fetch_calls (events (snd (discover_part000 env a tgt w)))"
  "render_calls (events (snd (worker_part000 env a tgt w))) =
     render_calls (events (snd (discover_part000 env a tgt w)))"
  by (auto simp: worker_part000_def bind_def split: prod.splits result.splits
      dest: probe_buckets_part000_calls_elim)

lemma smart_calls:
  "fetch_calls (events (snd (bind (fetch_extract env tgt)
       (\<lambda>bs. if bs = [] then fetchRendered env tgt else ret bs) w))) = fetch_calls (events w) @ [tgt]"
  "render_calls (events (snd (bind (fetch_extract env tgt)
       (\<lambda>bs. if bs = [] then fetchRendered env tgt else ret bs) w))) =
     render_calls (events w) @ (if fst (fetch_extract env tgt w) = Ok [] then [tgt] else [])"
  using fetch_extract_calls[of env tgt w]
  by (auto simp: bind_def ret_def fetchRendered_calls split: prod.splits result.splits)

lemma smart_part000_calls:
  "fetch_calls (events (snd (bind (fetch_extract env tgt)
       (\<lambda>bs. if bs = [] then fetchRendered_part000 env tgt else ret bs) w))) = fetch_calls (events w) @ [tgt]"
  "render_calls (events (snd (bind (fetch_extract env tgt)
       (\<lambda>bs. if bs = [] then fetchRendered_part000 env tgt else ret bs) w))) =
     render_calls (events w) @ (if fst (fetch_extract env tgt w) = Ok [] then [tgt] else [])"
  using fetch_extract_calls[of env tgt w]
  by (auto simp: bind_def ret_def fetchRendered_part000_calls split: prod.splits result.splits)





section \<open>Lemmas: the browser of \<^verbatim>\<open>Roku.js\<close>\<close>










text \<open>
A call of \<open>getBrowser\<close> that runs alone is a path of the step relation.
\<close>

lemma getBrowser_is_a_path:
  assumes "\<not> browserLaunching w" "pc i = NotCalled"
  shows "\<exists>b w'. getBrowser env w = (Ok b, w') \<and> gb_step\<^sup>*\<^sup>* (w, pc) (w', pc(i := Returned b))"
proof (cases "browser w")
  case (Some h)
  then have "getBrowser env w = (Ok (browser w), w)"
    by (simp add: getBrowser_def)
  moreover have "gb_step (w, pc) (w, pc(i := Returned (browser w)))"
    using Some assms(2) by (intro gb_step.enter_have) simp_all
  ultimately show ?thesis by blast
next
  case None
  let ?w1 = "emit Launch (w\<lparr>browserLaunching := True\<rparr>)"
  have s1: "gb_step (w, pc) (?w1, pc(i := Launching))"
    using None assms by (intro gb_step.enter_launch)
  show ?thesis
  proof (cases "chromium_launch env (clock w)")
    case (Inl e)
    have "gb_step (?w1, pc(i := Launching))
            (?w1\<lparr>browserLaunching := False\<rparr>, (pc(i := Launching))(i := Returned (browser ?w1)))"
      by (intro gb_step.launch_rejected) simp
    with s1 have "gb_step\<^sup>*\<^sup>* (w, pc) (?w1\<lparr>browserLaunching := False\<rparr>, pc(i := Returned None))"
      using None by (simp add: emit_def)
    moreover have "getBrowser env w = (Ok None, ?w1\<lparr>browserLaunching := False\<rparr>)"
      using None assms(1) Inl by (simp add: getBrowser_def Let_def emit_def)
    ultimately show ?thesis by blast
  next
    case (Inr h)
    have "gb_step (?w1, pc(i := Launching))
            (?w1\<lparr>browser := Some h, browserLaunching := False\<rparr>, (pc(i := Launching))(i := Returned (Some h)))"
      by (intro gb_step.launch_resolved) simp
    with s1 have "gb_step\<^sup>*\<^sup>* (w, pc) (?w1\<lparr>browser := Some h, browserLaunching := False\<rparr>, pc(i := Returned (Some h)))"
      by simp
    moreover have "getBrowser env w = (Ok (Some h), ?w1\<lparr>browser := Some h, browserLaunching := False\<rparr>)"
      using None assms(1) Inr by (simp add: getBrowser_def Let_def emit_def)
    ultimately show ?thesis by blast
  qed
qed

section \<open>Lemmas: what a pipeline writes\<close>

text \<open>
Only the loop over the buckets writes to the bucket set and to the records.
\<close>

lemma putTest_world:
  "\<exists>r e. putTest env b w = (Ok r, emit e w)"
  by (auto simp: putTest_def Let_def split: sum.splits)

lemma fetchHTTP_world:
  "\<exists>v e. fetchHTTP env url w = (Ok v, emit e w)"
  by (auto simp: fetchHTTP_def split: sum.splits)

lemma getBrowser_data:
  "allBuckets (snd (getBrowser env w)) = allBuckets w \<and>
   records (snd (getBrowser env w)) = records w \<and>
   urlResults (snd (getBrowser env w)) = urlResults w"
  by (auto simp: getBrowser_def Let_def dest: poll_Some split: sum.splits option.splits)

lemma getBrowser_idle:
  assumes "\<not> browserLaunching w"
  shows "\<exists>b. fst (getBrowser env w) = Ok b" and "\<not> browserLaunching (snd (getBrowser env w))"
  using assms by (auto simp: getBrowser_def Let_def split: sum.splits)

lemma render_page_data:
  "allBuckets (snd (render_page env url w)) = allBuckets w \<and>
   records (snd (render_page env url w)) = records w \<and>
   urlResults (snd (render_page env url w)) = urlResults w \<and>
   browserLaunching (snd (render_page env url w)) = browserLaunching w"
  by (simp add: render_page_def Let_def split: sum.splits result.splits)

lemma observe_distinct: "distinct found \<Longrightarrow> distinct (observe found urls)"
  unfolding observe_def
  by (induction urls arbitrary: found) (auto simp: add_all_distinct split: option.splits)

lemma render_page_result:
  "\<exists>bs. fst (render_page env url w) = Ok bs \<and> distinct bs"
proof -
  have d: "distinct (observe [] reqs)" for reqs
    by (rule observe_distinct) simp
  show ?thesis
    by (auto simp: render_page_def Let_def d add_all_distinct split: sum.splits result.splits)
qed

lemma fetchRendered_data:
  "allBuckets (snd (fetchRendered env url w)) = allBuckets w \<and>
   records (snd (fetchRendered env url w)) = records w \<and>
   urlResults (snd (fetchRendered env url w)) = urlResults w"
  using getBrowser_data[of env "emit (Call_fetchRendered url) w"]
  by (auto simp: fetchRendered_def render_page_data split: prod.splits result.splits option.splits)

lemma fetchRendered_idle:
  assumes "\<not> browserLaunching w"
  shows "\<exists>bs. fst (fetchRendered env url w) = Ok bs \<and> distinct bs"
    and "\<not> browserLaunching (snd (fetchRendered env url w))"
proof -
  let ?w = "emit (Call_fetchRendered url) w"
  have i: "\<not> browserLaunching ?w" using assms by simp
  from getBrowser_idle[OF i, of env] obtain b where
    g: "fst (getBrowser env ?w) = Ok b" "\<not> browserLaunching (snd (getBrowser env ?w))"
    by blast
  show "\<exists>bs. fst (fetchRendered env url w) = Ok bs \<and> distinct bs"
    using g(1) render_page_result[of env url "snd (getBrowser env ?w)"]
    by (cases b) (auto simp: fetchRendered_def split: prod.splits)
  show "\<not> browserLaunching (snd (fetchRendered env url w))"
    using g render_page_data[of env url "snd (getBrowser env ?w)"]
    by (cases b) (auto simp: fetchRendered_def split: prod.splits)
qed



lemma extractBuckets_distinct: "extractBuckets v = Ok bs \<Longrightarrow> distinct bs"
  by (auto simp: extractBuckets_def new_Set_distinct split: jsval.splits)

lemma fetch_extract_data:
  "allBuckets (snd (fetch_extract env tgt w)) = allBuckets w \<and>
   records (snd (fetch_extract env tgt w)) = records w \<and>
   urlResults (snd (fetch_extract env tgt w)) = urlResults w \<and>
   browserLaunching (snd (fetch_extract env tgt w)) = browserLaunching w"
  using fetchHTTP_world[of env tgt w]
  by (auto simp: fetch_extract_def bind_def lift_def split: result.splits)

lemma fetch_extract_result:
  "fst (fetch_extract env tgt w) = Ok bs \<Longrightarrow> distinct bs"
  "fst (fetch_extract env tgt w) \<noteq> Hang"
  using fetchHTTP_world[of env tgt w]
  by (auto simp: fetch_extract_def bind_def lift_def extractBuckets_def new_Set_distinct
      split: result.splits jsval.splits)

lemma discover_idle:
  assumes "\<not> browserLaunching w"
  shows "allBuckets (snd (discover env a t w)) = allBuckets w \<and>
         records (snd (discover env a t w)) = records w \<and>
         urlResults (snd (discover env a t w)) = urlResults w \<and>
         \<not> browserLaunching (snd (discover env a t w)) \<and>
         fst (discover env a t w) \<noteq> Hang \<and>
         (\<forall>bs. fst (discover env a t w) = Ok bs \<longrightarrow> distinct bs)"
proof -
  consider (l1) "LEVEL a = Some 1" | (l2) "LEVEL a = Some 2" | (l3) "LEVEL a = Some 3"
    | (other) "LEVEL a \<noteq> Some 1" "LEVEL a \<noteq> Some 2" "LEVEL a \<noteq> Some 3"
    by blast
  then show ?thesis
  proof cases
    case l1
    show ?thesis
      using assms fetch_extract_data[of env t w] fetch_extract_result[of env t w]
      by (simp add: discover_level1(1)[OF l1])
  next
    case l3
    show ?thesis
      using fetchRendered_data[of env t w] fetchRendered_idle[OF assms, of env t]
      by (auto simp: discover_level3(1)[OF l3])
  next
    case other
    then show ?thesis
      using assms by (simp add: discover_other(1))
  next
    case l2
    obtain r1 w1 where f: "fetch_extract env t w = (r1, w1)"
      by (cases "fetch_extract env t w")
    have d1: "allBuckets w1 = allBuckets w" "records w1 = records w" "urlResults w1 = urlResults w"
      "\<not> browserLaunching w1"
      using fetch_extract_data[of env t w] f assms by simp_all
    have r1: "r1 \<noteq> Hang" "\<And>bs. r1 = Ok bs \<Longrightarrow> distinct bs"
      using fetch_extract_result[of env t w] f by simp_all
    show ?thesis
    proof (cases r1)
      case (Ok bs)
      show ?thesis
      proof (cases "bs = []")
        case True
        have "discover env a t w = fetchRendered env t w1"
          using f Ok True by (simp add: discover_level2(1)[OF l2] bind_def)
        then show ?thesis
          using d1 fetchRendered_data[of env t w1] fetchRendered_idle[OF d1(4), of env t]
          by auto
      next
        case False
        have "discover env a t w = (Ok bs, w1)"
          using f Ok False by (simp add: discover_level2(1)[OF l2] bind_def ret_def)
        then show ?thesis
          using d1 r1(2)[OF Ok] by simp
      qed
    next
      case (Throw e)
      have "discover env a t w = (Throw e, w1)"
        using f Throw by (simp add: discover_level2(1)[OF l2] bind_def)
      then show ?thesis using d1 by simp
    next
      case Hang
      with r1(1) show ?thesis by simp
    qed
  qed
qed


lemma probe_buckets_effect:
  "\<exists>w'. probe_buckets env a tgt bs w = (Ok (), w') \<and>
        allBuckets w' = add_all bs (allBuckets w) \<and>
        map bucket (records w') = map bucket (records w) @ bs \<and>
        browserLaunching w' = browserLaunching w \<and>
        browser w' = browser w \<and>
        urlResults w' = urlResults w"
proof (induction bs arbitrary: w)
  case Nil
  then show ?case by simp
next
  case (Cons b bs)
  let ?w1 = "w\<lparr>allBuckets := Set_add b (allBuckets w)\<rparr>"
  show ?case
  proof (cases "argv_X a = JStr ''PUT'' \<and> \<not> PIPE_MODE a")
    case True
    from putTest_world[of env b ?w1] obtain r e where p: "putTest env b ?w1 = (Ok r, emit e ?w1)"
      by blast
    let ?w2 = "(emit e ?w1)\<lparr>records := records (emit e ?w1) @
                     [\<lparr>target = tgt, bucket = b,
                       put = (if success r then ''PUT_OK'' else []),
                       putBool = success r\<rparr>]\<rparr>"
    from Cons.IH[of ?w2] obtain w' where
      "probe_buckets env a tgt bs ?w2 = (Ok (), w')" "allBuckets w' = add_all bs (allBuckets ?w2)"
      "map bucket (records w') = map bucket (records ?w2) @ bs"
      "browserLaunching w' = browserLaunching ?w2" "browser w' = browser ?w2"
      "urlResults w' = urlResults ?w2"
      by blast
    with True p show ?thesis by (simp add: Let_def)
  next
    case False
    let ?w2 = "?w1\<lparr>records := records ?w1 @
                [\<lparr>target = tgt, bucket = b, put = [], putBool = False\<rparr>]\<rparr>"
    from Cons.IH[of ?w2] obtain w' where
      "probe_buckets env a tgt bs ?w2 = (Ok (), w')" "allBuckets w' = add_all bs (allBuckets ?w2)"
      "map bucket (records w') = map bucket (records ?w2) @ bs"
      "browserLaunching w' = browserLaunching ?w2" "browser w' = browser ?w2"
      "urlResults w' = urlResults ?w2"
      by blast
    with False show ?thesis by (auto simp: Let_def)
  qed
qed














section \<open>Lemmas: a browser that does not start\<close>




section \<open>Lemmas: the pools\<close>

lemma runWithRealtimeOutput_never_throws:
  "fst (runWithRealtimeOutput urls wk w) \<noteq> Throw e"
proof (induction urls arbitrary: w)
  case Nil
  then show ?case by simp
next
  case (Cons u us)
  obtain r w' where "wk u w = (r, w')" by (cases "wk u w")
  with Cons.IH[of w'] show ?case by (cases r) simp_all
qed

lemma worker_throws_before_the_loop:
  assumes "\<not> browserLaunching w" "fst (worker env a t w) = Throw e"
  shows "allBuckets (snd (worker env a t w)) = allBuckets w \<and>
         records (snd (worker env a t w)) = records w"
proof -
  obtain r0 w0 where d: "discover env a t w = (r0, w0)"
    by (cases "discover env a t w")
  from discover_idle[OF assms(1), of env a t] d have
    w0: "allBuckets w0 = allBuckets w" "records w0 = records w"
    by simp_all
  show ?thesis
  proof (cases r0)
    case (Ok bs)
    from probe_buckets_effect[of env a t bs w0] obtain w' where
      "probe_buckets env a t bs w0 = (Ok (), w')" by blast
    with d Ok have "worker env a t w = (Ok (), w')"
      by (simp add: worker_def bind_def)
    with assms(2) show ?thesis by simp
  next
    case (Throw e')
    with d have "worker env a t w = (Throw e', w0)"
      by (simp add: worker_def bind_def)
    with w0 show ?thesis by simp
  next
    case Hang
    with d have "worker env a t w = (Hang, w0)"
      by (simp add: worker_def bind_def)
    with assms(2) show ?thesis by simp
  qed
qed

section \<open>Lemmas: interleaved writes\<close>

lemma Union_set_list_update:
  assumes "i < length xss" "xss ! i = x # xs"
  shows "\<Union> (set ` set xss) = insert x (\<Union> (set ` set (xss[i := xs])))"
proof (intro set_eqI iffI)
  fix y assume "y \<in> \<Union> (set ` set xss)"
  then obtain zs where "zs \<in> set xss" "y \<in> set zs" by auto
  then obtain j where j: "j < length xss" "y \<in> set (xss ! j)"
    by (metis in_set_conv_nth)
  show "y \<in> insert x (\<Union> (set ` set (xss[i := xs])))"
  proof (cases "j = i")
    case True
    with j assms have "y = x \<or> y \<in> set ((xss[i := xs]) ! i)" by auto
    moreover have "(xss[i := xs]) ! i \<in> set (xss[i := xs])"
      using assms(1) by (simp add: set_update_memI)
    ultimately show ?thesis by blast
  next
    case False
    with j have "y \<in> set ((xss[i := xs]) ! j)" "j < length (xss[i := xs])" by auto
    then have "y \<in> \<Union> (set ` set (xss[i := xs]))"
      using nth_mem by blast
    then show ?thesis by simp
  qed
next
  fix y assume y: "y \<in> insert x (\<Union> (set ` set (xss[i := xs])))"
  have xi: "xss ! i \<in> set xss" using assms(1) by simp
  show "y \<in> \<Union> (set ` set xss)"
  proof (cases "y = x")
    case True
    with xi assms(2) show ?thesis by force
  next
    case False
    with y obtain zs where "zs \<in> set (xss[i := xs])" "y \<in> set zs" by auto
    then obtain j where j: "j < length xss" "y \<in> set ((xss[i := xs]) ! j)"
      by (metis in_set_conv_nth length_list_update)
    show ?thesis
    proof (cases "j = i")
      case True
      with j assms have "y \<in> set (xss ! i)" by simp
      with xi show ?thesis by blast
    next
      case False
      with j have "y \<in> set (xss ! j)" by simp
      with j(1) show ?thesis using nth_mem by blast
    qed
  qed
qed

lemma interleaving_set:
  "interleaving css cs \<Longrightarrow> set cs = \<Union> (set ` set css)"
proof (induction rule: interleaving.induct)
  case (interleaving_done css)
  then show ?case by auto
next
  case (interleaving_step i css c cs' cs)
  then show ?case
    using Union_set_list_update[OF interleaving_step(1,2)] by simp
qed

lemma fold_commit:
  "set (allBuckets (fold commit cs w)) = set (allBuckets w) \<union> {b. AddBucket b \<in> set cs} \<and>
   distinct (allBuckets (fold commit cs w)) = distinct (allBuckets w) \<and>
   set (records (fold commit cs w)) = set (records w) \<union> {r. PushRecord r \<in> set cs}"
proof (induction cs arbitrary: w)
  case Nil
  then show ?case by simp
next
  case (Cons c cs)
  show ?case
  proof (cases c)
    case (AddBucket b)
    then show ?thesis
      using Cons.IH[of "commit c w"] by (auto simp: set_Set_add Set_add_def)
  next
    case (PushRecord r)
    then show ?thesis
      using Cons.IH[of "commit c w"] by auto
  qed
qed

lemma fold_commit_cong:
  "allBuckets w = allBuckets v \<Longrightarrow> records w = records v \<Longrightarrow>
   allBuckets (fold commit cs w) = allBuckets (fold commit cs v) \<and>
   records (fold commit cs w) = records (fold commit cs v)"
proof (induction cs arbitrary: w v)
  case Nil
  then show ?case by simp
next
  case (Cons c cs)
  have "allBuckets (commit c w) = allBuckets (commit c v) \<and>
        records (commit c w) = records (commit c v)"
    using Cons.prems by (cases c) simp_all
  with Cons.IH[of "commit c w" "commit c v"] show ?case by simp
qed

lemma commits_set:
  "c \<in> set (commits brs) \<Longrightarrow>
     (\<exists>b r. (b, r) \<in> set brs \<and> (c = AddBucket b \<or> c = PushRecord r))"
  by (induction brs rule: commits.induct) auto

lemma commits_push:
  "PushRecord r \<in> set (commits brs) \<Longrightarrow> \<forall>(b, r) \<in> set brs. bucket r = b \<Longrightarrow>
   AddBucket (bucket r) \<in> set (commits brs)"
  by (induction brs rule: commits.induct) auto

text \<open>
The writes of the loop over the buckets are the commits of its buckets, in order.
\<close>

lemma probe_buckets_commits:
  "\<exists>rs. length rs = length bs \<and>
        (\<forall>(b, r) \<in> set (zip bs rs). bucket r = b \<and> target r = tgt) \<and>
        allBuckets (snd (probe_buckets env a tgt bs w)) =
          allBuckets (fold commit (commits (zip bs rs)) w) \<and>
        records (snd (probe_buckets env a tgt bs w)) =
          records (fold commit (commits (zip bs rs)) w)"
proof (induction bs arbitrary: w)
  case Nil
  then show ?case by simp
next
  case (Cons b bs)
  let ?w1 = "w\<lparr>allBuckets := Set_add b (allBuckets w)\<rparr>"
  have step: "\<exists>rs. length rs = length (b # bs) \<and>
        (\<forall>(b, r) \<in> set (zip (b # bs) rs). bucket r = b \<and> target r = tgt) \<and>
        allBuckets (snd (probe_buckets env a tgt bs w2)) =
          allBuckets (fold commit (commits (zip (b # bs) rs)) w) \<and>
        records (snd (probe_buckets env a tgt bs w2)) =
          records (fold commit (commits (zip (b # bs) rs)) w)"
    if w2: "allBuckets w2 = allBuckets ?w1" "records w2 = records w @ [r]"
      and r: "bucket r = b" "target r = tgt" for w2 r
  proof -
    from Cons.IH[of w2] obtain rs where rs: "length rs = length bs"
      "\<forall>(b, r) \<in> set (zip bs rs). bucket r = b \<and> target r = tgt"
      "allBuckets (snd (probe_buckets env a tgt bs w2)) =
          allBuckets (fold commit (commits (zip bs rs)) w2)"
      "records (snd (probe_buckets env a tgt bs w2)) =
          records (fold commit (commits (zip bs rs)) w2)"
      by blast
    let ?v = "commit (PushRecord r) (commit (AddBucket b) w)"
    have "allBuckets w2 = allBuckets ?v" "records w2 = records ?v"
      using w2 by simp_all
    from fold_commit_cong[OF this, of "commits (zip bs rs)"] rs r
    show ?thesis
      by (intro exI[of _ "r # rs"]) simp
  qed
  show ?case
  proof (cases "argv_X a = JStr ''PUT'' \<and> \<not> PIPE_MODE a")
    case True
    from putTest_world[of env b ?w1] obtain pr e where p: "putTest env b ?w1 = (Ok pr, emit e ?w1)"
      by blast
    let ?r = "\<lparr>target = tgt, bucket = b, put = (if success pr then ''PUT_OK'' else []),
               putBool = success pr\<rparr>"
    let ?w2 = "(emit e ?w1)\<lparr>records := records (emit e ?w1) @ [?r]\<rparr>"
    have "probe_buckets env a tgt (b # bs) w = probe_buckets env a tgt bs ?w2"
      using True p by (simp add: Let_def)
    moreover have "allBuckets ?w2 = allBuckets ?w1" "records ?w2 = records w @ [?r]"
      "bucket ?r = b" "target ?r = tgt"
      by simp_all
    ultimately show ?thesis using step[of ?w2 ?r] by simp
  next
    case False
    let ?r = "\<lparr>target = tgt, bucket = b, put = [], putBool = False\<rparr>"
    let ?w2 = "?w1\<lparr>records := records ?w1 @ [?r]\<rparr>"
    have "probe_buckets env a tgt (b # bs) w = probe_buckets env a tgt bs ?w2"
      using False by (auto simp: Let_def)
    moreover have "allBuckets ?w2 = allBuckets ?w1" "records ?w2 = records w @ [?r]"
      "bucket ?r = b" "target ?r = tgt"
      by simp_all
    ultimately show ?thesis using step[of ?w2 ?r] by simp
  qed
qed

text \<open>
  The bucket set and the records at the end do not depend on the order in which the
  pipelines take their turns.
\<close>

lemma interleaved_commits:
  assumes "interleaving (map commits brss) cs"
    and "\<forall>brs \<in> set brss. \<forall>(b, r) \<in> set brs. bucket r = b"
  shows "set (allBuckets (fold commit cs init_world)) = fst ` \<Union> (set ` set brss) \<and>
         distinct (allBuckets (fold commit cs init_world)) \<and>
         (\<forall>r \<in> set (records (fold commit cs init_world)).
            bucket r \<in> set (allBuckets (fold commit cs init_world)))"
proof -
  have s: "set cs = \<Union> (set ` set (map commits brss))"
    using assms(1) by (rule interleaving_set)
  have i: "allBuckets init_world = []" "records init_world = []"
    by (simp_all add: init_world_def)
  have f: "set (allBuckets (fold commit cs init_world)) = {b. AddBucket b \<in> set cs}"
    "distinct (allBuckets (fold commit cs init_world))"
    "set (records (fold commit cs init_world)) = {r. PushRecord r \<in> set cs}"
    using fold_commit[of cs init_world] by (simp_all add: i)
  have a: "{b. AddBucket b \<in> set cs} = fst ` \<Union> (set ` set brss)"
  proof (intro set_eqI iffI)
    fix b assume "b \<in> {b. AddBucket b \<in> set cs}"
    then obtain brs where "brs \<in> set brss" "AddBucket b \<in> set (commits brs)"
      using s by auto
    then show "b \<in> fst ` \<Union> (set ` set brss)"
      using commits_set[of "AddBucket b" brs] by force
  next
    fix b assume "b \<in> fst ` \<Union> (set ` set brss)"
    then obtain brs r where brs: "brs \<in> set brss" "(b, r) \<in> set brs" by auto
    have "AddBucket b \<in> set (commits brs)"
      using brs(2) by (induction brs rule: commits.induct) auto
    with brs(1) show "b \<in> {b. AddBucket b \<in> set cs}"
      using s by auto
  qed
  have p: "\<forall>r \<in> set (records (fold commit cs init_world)).
            bucket r \<in> set (allBuckets (fold commit cs init_world))"
  proof
    fix r assume "r \<in> set (records (fold commit cs init_world))"
    then have "PushRecord r \<in> set cs" using f(3) by simp
    then obtain brs where brs: "brs \<in> set brss" "PushRecord r \<in> set (commits brs)"
      using s by auto
    with assms(2) have "AddBucket (bucket r) \<in> set (commits brs)"
      using commits_push by blast
    with brs(1) have "AddBucket (bucket r) \<in> set cs" using s by auto
    then show "bucket r \<in> set (allBuckets (fold commit cs init_world))"
      using f(1) by simp
  qed
  from f(1,2) a p show ?thesis by simp
qed

section \<open>Evaluation\<close>

lemmas regex_eval = extractBuckets_def str_match_def exec_at_def OSS_REGEX_def lit_def opt_chr_def plus_cls_def
  host_char_def region_char_def new_Set_def add_all_def Set_add_def

lemmas demo_eval = demo_env_def demo_argv_def init_world_def LEVEL_def PIPE_MODE_def js_or_def truthy_def
  clock_def emit_def bind_def ret_def lift_def

lemmas run_eval = fetchHTTP_def fetch_extract_def putTest_def randHex_def strip_slash_def
  getBrowser_def render_page_def fetchRendered_def closeBrowser_def fetchRendered_part000_def
  discover_def discover_part000_def worker_def worker_part000_def main_def main_part000_def
  observe_def Let_def

section \<open>The claims\<close>

subsection \<open>C1: the level decides which of fetcher and renderer run\<close>

text \<open>
  Claim C1. For every target, in both variants: with level 1 the pipeline calls the
  fetcher for the target once and never the renderer, whatever the fetch gave; with level 3
  it calls the renderer for the target once and never the fetcher; with level 2 it calls
  the fetcher once, and the renderer (for the same target, once) exactly when fetching and
  extracting gave the empty list of buckets.
\<close>

theorem level_selection:
  "(LEVEL a = Some 1 \<longrightarrow>
      fetch_calls (events (snd (worker env a tgt w))) = fetch_calls (events w) @ [tgt] \<and>
      render_calls (events (snd (worker env a tgt w))) = render_calls (events w) \<and>
      fetch_calls (events (snd (worker_part000 env a tgt w))) = fetch_calls (events w) @ [tgt] \<and>
      render_calls (events (snd (worker_part000 env a tgt w))) = render_calls (events w)) \<and>
   (LEVEL a = Some 3 \<longrightarrow>
      fetch_calls (events (snd (worker env a tgt w))) = fetch_calls (events w) \<and>
      render_calls (events (snd (worker env a tgt w))) = render_calls (events w) @ [tgt] \<and>
      fetch_calls (events (snd (worker_part000 env a tgt w))) = fetch_calls (events w) \<and>
      render_calls (events (snd (worker_part000 env a tgt w))) = render_calls (events w) @ [tgt]) \<and>
   (LEVEL a = Some 2 \<longrightarrow>
      fetch_calls (events (snd (worker env a tgt w))) = fetch_calls (events w) @ [tgt] \<and>
      render_calls (events (snd (worker env a tgt w))) =
        render_calls (events w) @ (if fst (fetch_extract env tgt w) = Ok [] then [tgt] else []) \<and>
      fetch_calls (events (snd (worker_part000 env a tgt w))) = fetch_calls (events w) @ [tgt] \<and>
      render_calls (events (snd (worker_part000 env a tgt w))) =
        render_calls (events w) @ (if fst (fetch_extract env tgt w) = Ok [] then [tgt] else []))"
proof (intro conjI impI)
  assume l: "LEVEL a = Some 1"
  show "fetch_calls (events (snd (worker env a tgt w))) = fetch_calls (events w) @ [tgt]"
    by (simp only: worker_calls discover_level1[OF l] fetch_extract_calls)
  show "render_calls (events (snd (worker env a tgt w))) = render_calls (events w)"
    by (simp only: worker_calls discover_level1[OF l] fetch_extract_calls)
  show "fetch_calls (events (snd (worker_part000 env a tgt w))) = fetch_calls (events w) @ [tgt]"
    by (simp only: worker_part000_calls discover_level1[OF l] fetch_extract_calls)
  show "render_calls (events (snd (worker_part000 env a tgt w))) = render_calls (events w)"
    by (simp only: worker_part000_calls discover_level1[OF l] fetch_extract_calls)
next
  assume l: "LEVEL a = Some 3"
  show "fetch_calls (events (snd (worker env a tgt w))) = fetch_calls (events w)"
    by (simp only: worker_calls discover_level3[OF l] fetchRendered_calls)
  show "render_calls (events (snd (worker env a tgt w))) = render_calls (events w) @ [tgt]"
    by (simp only: worker_calls discover_level3[OF l] fetchRendered_calls)
  show "fetch_calls (events (snd (worker_part000 env a tgt w))) = fetch_calls (events w)"
    by (simp only: worker_part000_calls discover_level3[OF l] fetchRendered_part000_calls)
  show "render_calls (events (snd (worker_part000 env a tgt w))) = render_calls (events w) @ [tgt]"
    by (simp only: worker_part000_calls discover_level3[OF l] fetchRendered_part000_calls)
next
  assume l: "LEVEL a = Some 2"
  show "fetch_calls (events (snd (worker env a tgt w))) = fetch_calls (events w) @ [tgt]"
    by (simp only: worker_calls discover_level2[OF l] smart_calls)
  show "render_calls (events (snd (worker env a tgt w))) =
        render_calls (events w) @ (if fst (fetch_extract env tgt w) = Ok [] then [tgt] else [])"
    by (simp only: worker_calls discover_level2[OF l] smart_calls)
  show "fetch_calls (events (snd (worker_part000 env a tgt w))) = fetch_calls (events w) @ [tgt]"
    by (simp only: worker_part000_calls discover_level2[OF l] smart_part000_calls)
  show "render_calls (events (snd (worker_part000 env a tgt w))) =
        render_calls (events w) @ (if fst (fetch_extract env tgt w) = Ok [] then [tgt] else [])"
    by (simp only: worker_part000_calls discover_level2[OF l] smart_part000_calls)
qed

text \<open>
The theorem at the three levels; at level 2 for a page without a bucket and for a page with one.
\<close>

theorem level_selection_witness:
  "LEVEL (demo_argv 1) = Some 1 \<and>
   render_calls (events (snd (worker demo_env (demo_argv 1) ''http://b.example'' init_world))) = [] \<and>
   LEVEL (demo_argv 3) = Some 3 \<and>
   fetch_calls (events (snd (worker demo_env (demo_argv 3) ''http://a.example'' init_world))) = [] \<and>
   LEVEL (demo_argv 2) = Some 2 \<and>
   fst (fetch_extract demo_env ''http://b.example'' init_world) = Ok [] \<and>
   render_calls (events (snd (worker demo_env (demo_argv 2) ''http://b.example'' init_world))) =
     [''http://b.example''] \<and>
   fst (fetch_extract demo_env ''http://a.example'' init_world) = Ok [''http://a.oss-cn-hangzhou.aliyuncs.com''] \<and>
   render_calls (events (snd (worker_part000 demo_env (demo_argv 2) ''http://a.example'' init_world))) = []"
proof -
  have l: "LEVEL (demo_argv 1) = Some 1" "LEVEL (demo_argv 2) = Some 2" "LEVEL (demo_argv 3) = Some 3"
    by (simp_all add: LEVEL_def demo_argv_def js_or_def truthy_def)
  have e: "fst (fetch_extract demo_env ''http://b.example'' init_world) = Ok []"
    "fst (fetch_extract demo_env ''http://a.example'' init_world) = Ok [''http://a.oss-cn-hangzhou.aliyuncs.com'']"
    by (simp_all add: demo_eval fetchHTTP_def fetch_extract_def regex_eval)
  have i: "render_calls (events init_world) = []" "fetch_calls (events init_world) = []"
    by (simp_all add: init_world_def)
  show ?thesis
    using level_selection[of "demo_argv 1" demo_env "''http://b.example''" init_world]
      level_selection[of "demo_argv 3" demo_env "''http://a.example''" init_world]
      level_selection[of "demo_argv 2" demo_env "''http://b.example''" init_world]
      level_selection[of "demo_argv 2" demo_env "''http://a.example''" init_world]
      l e i
    by simp
qed

subsection \<open>C2: a pipeline that throws\<close>

text \<open>
  Claim C2 holds for \<^verbatim>\<open>runWithRealtimeOutput\<close> and fails for \<^verbatim>\<open>runPool\<close>, which has no
  handler for the rejection of a worker. With one target whose render cannot launch a
  browser (or whose fetched body is not a string), the main function of the earlier
  variant ends in a rejection that nothing handles, where \<^verbatim>\<open>Roku.js\<close> ends with exit code 0.
\<close>

theorem runPool_rejects_when_a_pipeline_throws:
  "fst (main_part000 (demo_env\<lparr>chromium_launch := \<lambda>t. Inl PlaywrightError\<rparr>) (demo_argv 3)
          [''http://a.example''] init_world) = Throw PlaywrightError \<and>
   fst (main_part000 demo_env (demo_argv 1) [''http://api.example''] init_world) = Throw TypeError \<and>
   fst (main (demo_env\<lparr>chromium_launch := \<lambda>t. Inl PlaywrightError\<rparr>) (demo_argv 3)
          [''http://a.example''] init_world) = Ok 0 \<and>
   fst (main demo_env (demo_argv 1) [''http://api.example''] init_world) = Ok 0"
  by (simp add: demo_eval run_eval extractBuckets_def)

subsection \<open>C3: what the extractor returns\<close>




subsection \<open>C4: what the fetcher returns\<close>

text \<open>
  The fetcher never throws, gives the empty string when the transport fails, and gives the
  body when the body is a string.
\<close>

lemma fetchHTTP_transport_failure:
  "axios_get env (clock w) url = Inl e \<Longrightarrow> fst (fetchHTTP env url w) = Ok (JStr [])"
  by (simp add: fetchHTTP_def)

lemma fetchHTTP_string_body:
  "axios_get env (clock w) url = Inr res \<Longrightarrow> data res = JStr s \<Longrightarrow>
   fst (fetchHTTP env url w) = Ok (JStr s)"
  by (simp add: fetchHTTP_def js_or_def truthy_def)

text \<open>
  Claim C4 says that the fetcher always returns a string. For a response whose body is
  handed over as a parsed object, \<open>fetchHTTP\<close> returns that object, and the extraction
  that follows throws a \<^verbatim>\<open>TypeError\<close>.
\<close>

theorem fetchHTTP_json_body_is_no_string:
  "fetchHTTP demo_env ''http://api.example'' init_world =
     (Ok JObject, emit (AxiosGet ''http://api.example'') init_world) \<and>
   fst (fetch_extract demo_env ''http://api.example'' init_world) = Throw TypeError"
  by (simp add: demo_eval fetchHTTP_def fetch_extract_def extractBuckets_def)

subsection \<open>C5: the write probe\<close>

text \<open>
  Claim C5. For every bucket, \<open>putTest\<close> returns (it does not throw), and its result has
  \<open>success\<close> true exactly when the PUT request was answered with a status from 200 to 299;
  every other status and every failure of the transport give \<open>success\<close> false.
\<close>

theorem putTest_classification:
  "\<exists>r. fst (putTest env b w) = Ok r \<and>
        (success r \<longleftrightarrow>
           (\<exists>res. axios_put env (clock w)
                     (strip_slash b @ ''/'' @ randHex env (clock w) 16 @ ''.ppa'')
                     (randHex env (clock w) 32) = Inr res \<and>
                  200 \<le> status res \<and> status res < 300))"
  by (auto simp: putTest_def Let_def split: sum.splits)

text \<open>
The theorem for a transport that answers 201, one that answers 403, and one that fails.
\<close>

theorem putTest_classification_witness:
  "(\<exists>r. fst (putTest demo_env ''http://a.oss-cn-hangzhou.aliyuncs.com/'' init_world) = Ok r \<and> success r) \<and>
   (\<exists>r. fst (putTest (demo_env\<lparr>axios_put := \<lambda>t u body. Inr \<lparr>status = 403, data = JStr []\<rparr>\<rparr>)
              ''http://a.oss-cn-hangzhou.aliyuncs.com/'' init_world) = Ok r \<and> \<not> success r) \<and>
   (\<exists>r. fst (putTest (demo_env\<lparr>axios_put := \<lambda>t u body. Inl TransportError\<rparr>)
              ''http://a.oss-cn-hangzhou.aliyuncs.com/'' init_world) = Ok r \<and> \<not> success r)"
  using putTest_classification[of demo_env "''http://a.oss-cn-hangzhou.aliyuncs.com/''" init_world]
    putTest_classification[of "demo_env\<lparr>axios_put := \<lambda>t u body. Inr \<lparr>status = 403, data = JStr []\<rparr>\<rparr>"
       "''http://a.oss-cn-hangzhou.aliyuncs.com/''" init_world]
    putTest_classification[of "demo_env\<lparr>axios_put := \<lambda>t u body. Inl TransportError\<rparr>"
       "''http://a.oss-cn-hangzhou.aliyuncs.com/''" init_world]
  by (simp add: demo_env_def)

subsection \<open>C6: one launch of the shared browser\<close>




subsection \<open>C7: a browser that does not start\<close>




subsection \<open>C8: the browsing context of a render\<close>

text \<open>
  Claim C8 says that \<^verbatim>\<open>fetchRendered\<close> closes its browsing context on every path.
  \<^verbatim>\<open>context.close()\<close> is the last statement of the \<^verbatim>\<open>try\<close> block: when the navigation
  throws, the call returns with the context still open (the trace has \<open>NewContext\<close> and no
  \<open>ContextClose\<close>). The earlier variant closes what it opened on that path.
\<close>

theorem fetchRendered_goto_throws_context_left_open:
  "fetchRendered (demo_env\<lparr>page_goto := \<lambda>t u. ([], Inl PlaywrightError)\<rparr>) ''http://a.example'' init_world =
     (Ok [],
      init_world\<lparr>browser := Some 1,
        events := [Call_fetchRendered ''http://a.example'', Launch, NewContext, NewPage,
                   Goto ''http://a.example'']\<rparr>) \<and>
   events (snd (fetchRendered_part000 (demo_env\<lparr>page_goto := \<lambda>t u. ([], Inl PlaywrightError)\<rparr>)
      ''http://a.example'' init_world)) =
     [Call_fetchRendered ''http://a.example'', Launch, NewPage, Goto ''http://a.example'', BrowserClose]"
  by (simp add: demo_eval run_eval)

subsection \<open>C9: the bucket set and the records of a run\<close>



subsection \<open>C10: a level that is not 1, 2 or 3\<close>




end
